theory Spec2Isabelle
  imports Main "HOL-Library.Multiset"
begin

section \<open>Configuration (db.ts)\<close>

definition CELEBRITY_THRESHOLD :: int where
  "CELEBRITY_THRESHOLD = 5"

section \<open>Data model\<close>

text \<open>
  Identifiers are integers throughout. The decimal renderings the code passes around
  (\<^verbatim>\<open>tweetId.toString()\<close>, the \<^verbatim>\<open>$1::int[]\<close> cast, the route parameter) are identified
  with the integers they denote. Timestamps are milliseconds, the value of
  \<^verbatim>\<open>new Date(t).getTime()\<close>.
\<close>

record tweet =
  id' :: int
  sender_id :: int
  text' :: string
  timestamp :: int

text \<open>The message of the write path: \<^verbatim>\<open>{ tweetId, followers }\<close>.\<close>

record job =
  tweetId :: int
  followers :: "int list"

text \<open>The content of a delivered message: what \<^verbatim>\<open>JSON.parse\<close> makes of it.\<close>

datatype payload = Unparsable | Payload job

text \<open>The Redis key \<^verbatim>\<open>timeline:${id}\<close>.\<close>

datatype redis_key = Timeline int

datatype error = Pg_error | Redis_error | Amqp_error | Url_undefined | Json_error

text \<open>Effects on the store and the channel, in the order they happen.\<close>

datatype event = Persisted tweet | Published job | Acked payload | Requeued payload

text \<open>
  The external services and the process state. \<open>calls\<close> counts the calls issued to an
  external service so far, and \<open>fails i\<close> tells whether call number \<open>i\<close> throws: any failure
  of a service (unreachable, constraint violated, time-out) is a choice of \<open>fails\<close>.
  A call that throws leaves the service as it was. Requests are handled one after the
  other.
\<close>

record world =
  users :: "int list"
  follows :: "(int \<times> int) list"
  tweets :: "tweet list"
  tweets_id_seq :: int
  current_timestamp :: int
  redis :: "redis_key \<Rightarrow> int list"
  rabbitmq_url :: bool
  channel :: bool
  queue :: "payload list"
  calls :: nat
  fails :: "nat \<Rightarrow> bool"
  log :: "event list"

text \<open>The body of \<^verbatim>\<open>POST /tweet\<close>: each field a JSON value of its type, or absent.\<close>

record tweet_request =
  body_userId :: "int option"
  body_text :: "string option"

datatype json =
    Error_json string
  | Tweet_json tweet bool int
  | Timeline_json int "tweet list" nat nat nat nat

record response =
  status :: nat
  json :: json

section \<open>Calls that may throw\<close>

definition bind_io ::
  "(world \<Rightarrow> (error + 'a) \<times> world) \<Rightarrow> ('a \<Rightarrow> world \<Rightarrow> (error + 'b) \<times> world) \<Rightarrow>
   world \<Rightarrow> (error + 'b) \<times> world" where
  "bind_io m k w = (case m w of (Inl e, w1) \<Rightarrow> (Inl e, w1) | (Inr x, w1) \<Rightarrow> k x w1)"

definition external ::
  "error \<Rightarrow> (world \<Rightarrow> 'a \<times> world) \<Rightarrow> world \<Rightarrow> (error + 'a) \<times> world" where
  "external e act w =
     (let w1 = w\<lparr>calls := Suc (calls w)\<rparr>
      in if fails w (calls w) then (Inl e, w1)
         else (case act w1 of (x, w2) \<Rightarrow> (Inr x, w2)))"

text \<open>The next \<open>n\<close> external calls succeed.\<close>

definition calls_succeed :: "nat \<Rightarrow> world \<Rightarrow> bool" where
  "calls_succeed n w \<longleftrightarrow> (\<forall>i<n. \<not> fails w (calls w + i))"

section \<open>The store: the queries of index.ts over the schema of db.ts\<close>

text \<open>
  \<^verbatim>\<open>ORDER BY timestamp DESC\<close>: rows of equal timestamp keep the order of the table.
\<close>

definition order_by_timestamp_desc :: "tweet list \<Rightarrow> tweet list" where
  "order_by_timestamp_desc rows = sort_key (\<lambda>t. - timestamp t) rows"

definition count_followers :: "world \<Rightarrow> int \<Rightarrow> int" where
  "count_followers w userId = int (length (filter (\<lambda>f. snd f = userId) (follows w)))"

definition select_followers :: "world \<Rightarrow> int \<Rightarrow> int list" where
  "select_followers w userId = map fst (filter (\<lambda>f. snd f = userId) (follows w))"

definition select_user :: "world \<Rightarrow> int \<Rightarrow> int list" where
  "select_user w userId = filter (\<lambda>u. u = userId) (users w)"

definition select_tweets_by_ids :: "world \<Rightarrow> int list \<Rightarrow> tweet list" where
  "select_tweets_by_ids w ids =
     order_by_timestamp_desc (filter (\<lambda>t. id' t \<in> set ids) (tweets w))"

definition select_celebrity_tweets :: "world \<Rightarrow> int \<Rightarrow> int \<Rightarrow> tweet list" where
  "select_celebrity_tweets w userId threshold =
     take 20 (order_by_timestamp_desc
       (concat (map (\<lambda>t. concat (map (\<lambda>f.
          if sender_id t = snd f \<and> fst f = userId \<and> threshold \<le> count_followers w (sender_id t)
          then [t] else []) (follows w))) (tweets w))))"

definition insert_tweet :: "int \<Rightarrow> string \<Rightarrow> world \<Rightarrow> (error + tweet) \<times> world" where
  "insert_tweet userId txt =
     external Pg_error (\<lambda>w.
       let row = \<lparr>id' = tweets_id_seq w + 1, sender_id = userId, text' = txt,
                  timestamp = current_timestamp w\<rparr>
       in (row, w\<lparr>tweets := tweets w @ [row], tweets_id_seq := tweets_id_seq w + 1,
                  log := log w @ [Persisted row]\<rparr>))"

definition query_count_followers :: "int \<Rightarrow> world \<Rightarrow> (error + int) \<times> world" where
  "query_count_followers userId = external Pg_error (\<lambda>w. (count_followers w userId, w))"

definition query_followers :: "int \<Rightarrow> world \<Rightarrow> (error + int list) \<times> world" where
  "query_followers userId = external Pg_error (\<lambda>w. (select_followers w userId, w))"

definition query_user :: "int \<Rightarrow> world \<Rightarrow> (error + int list) \<times> world" where
  "query_user userId = external Pg_error (\<lambda>w. (select_user w userId, w))"

definition query_tweets_by_ids :: "int list \<Rightarrow> world \<Rightarrow> (error + tweet list) \<times> world" where
  "query_tweets_by_ids ids = external Pg_error (\<lambda>w. (select_tweets_by_ids w ids, w))"

definition query_celebrity_tweets ::
  "int \<Rightarrow> int \<Rightarrow> world \<Rightarrow> (error + tweet list) \<times> world" where
  "query_celebrity_tweets userId threshold =
     external Pg_error (\<lambda>w. (select_celebrity_tweets w userId threshold, w))"

section \<open>The cache: Redis lists\<close>

text \<open>
  The elements of a list from index \<open>start\<close> to index \<open>stop\<close>, both included; a negative
  index counts from the end. A key that holds nothing is the empty list.
\<close>

definition redis_range :: "int \<Rightarrow> int \<Rightarrow> 'a list \<Rightarrow> 'a list" where
  "redis_range start stop xs =
     (let n = int (length xs);
          s = (if start < 0 then max 0 (n + start) else start);
          e = (if stop < 0 then n + stop else min stop (n - 1))
      in if e < s then [] else take (nat (e - s + 1)) (drop (nat s) xs))"

definition lPush :: "redis_key \<Rightarrow> int \<Rightarrow> world \<Rightarrow> (error + nat) \<times> world" where
  "lPush key v =
     external Redis_error (\<lambda>w.
       (Suc (length (redis w key)), w\<lparr>redis := (redis w)(key := v # redis w key)\<rparr>))"

definition lTrim :: "redis_key \<Rightarrow> int \<Rightarrow> int \<Rightarrow> world \<Rightarrow> (error + unit) \<times> world" where
  "lTrim key start stop =
     external Redis_error (\<lambda>w.
       ((), w\<lparr>redis := (redis w)(key := redis_range start stop (redis w key))\<rparr>))"

definition lRange :: "redis_key \<Rightarrow> int \<Rightarrow> int \<Rightarrow> world \<Rightarrow> (error + int list) \<times> world" where
  "lRange key start stop = external Redis_error (\<lambda>w. (redis_range start stop (redis w key), w))"

section \<open>The channel (db.ts, amqplib)\<close>

text \<open>
  \<^verbatim>\<open>connectRabbitMQ\<close>: the channel is a singleton; without one, the URL must be defined
  and the connection, the channel and the queue are set up in one external call.
\<close>

definition connectRabbitMQ :: "world \<Rightarrow> (error + unit) \<times> world" where
  "connectRabbitMQ w =
     (if channel w then (Inr (), w)
      else if \<not> rabbitmq_url w then (Inl Url_undefined, w)
      else external Amqp_error (\<lambda>w1. ((), w1\<lparr>channel := True\<rparr>)) w)"

definition sendToQueue :: "job \<Rightarrow> world \<Rightarrow> (error + bool) \<times> world" where
  "sendToQueue message =
     external Amqp_error (\<lambda>w.
       (True, w\<lparr>queue := queue w @ [Payload message], log := log w @ [Published message]\<rparr>))"

text \<open>
  \<^verbatim>\<open>channel.ack(msg)\<close> settles the delivery; \<^verbatim>\<open>channel.nack(msg, false, true)\<close> puts the
  message back at the head of the queue.
\<close>

definition ack :: "payload \<Rightarrow> world \<Rightarrow> world" where
  "ack msg w = w\<lparr>log := log w @ [Acked msg]\<rparr>"

definition nack_requeue :: "payload \<Rightarrow> world \<Rightarrow> world" where
  "nack_requeue msg w = w\<lparr>queue := msg # queue w, log := log w @ [Requeued msg]\<rparr>"

section \<open>Write path: \<^verbatim>\<open>POST /tweet\<close> (index.ts)\<close>

definition error_response :: "nat \<Rightarrow> string \<Rightarrow> response" where
  "error_response code msg = \<lparr>status = code, json = Error_json msg\<rparr>"

definition post_tweet_try :: "tweet_request \<Rightarrow> world \<Rightarrow> (error + response) \<times> world" where
  "post_tweet_try req w =
     (case (body_userId req, body_text req) of
        (Some userId, Some txt) \<Rightarrow>
          if userId = 0 \<or> txt = [] then
            (Inr (error_response 400 ''userId and text are required''), w)
          else
            bind_io (insert_tweet userId txt) (\<lambda>tweet.
            bind_io (query_count_followers userId) (\<lambda>followerCount.
              if followerCount < CELEBRITY_THRESHOLD then
                bind_io (query_followers userId) (\<lambda>followersResult.
                bind_io connectRabbitMQ (\<lambda>_.
                bind_io (sendToQueue \<lparr>tweetId = id' tweet, followers = followersResult\<rparr>) (\<lambda>_ w5.
                  (Inr \<lparr>status = 200,
                        json = Tweet_json tweet (CELEBRITY_THRESHOLD \<le> followerCount)
                                 followerCount\<rparr>, w5))))
              else (\<lambda>w2.
                (Inr \<lparr>status = 200,
                      json = Tweet_json tweet (CELEBRITY_THRESHOLD \<le> followerCount)
                               followerCount\<rparr>, w2)))) w
      | _ \<Rightarrow> (Inr (error_response 400 ''userId and text are required''), w))"

definition post_tweet :: "tweet_request \<Rightarrow> world \<Rightarrow> response \<times> world" where
  "post_tweet req w =
     (case post_tweet_try req w of
        (Inr res, w1) \<Rightarrow> (res, w1)
      | (Inl e, w1) \<Rightarrow> (error_response 500 ''Internal server error'', w1))"

section \<open>Fan-out worker (worker.ts)\<close>

fun fanout :: "int \<Rightarrow> int list \<Rightarrow> world \<Rightarrow> (error + unit) \<times> world" where
  "fanout tweet_id [] w = (Inr (), w)"
| "fanout tweet_id (follower_id # rest) w =
     (case lPush (Timeline follower_id) tweet_id w of
        (Inl e, w1) \<Rightarrow> (Inl e, w1)
      | (Inr _, w1) \<Rightarrow>
          (case lTrim (Timeline follower_id) 0 19 w1 of
             (Inl e, w2) \<Rightarrow> (Inl e, w2)
           | (Inr _, w2) \<Rightarrow> fanout tweet_id rest w2))"

definition process_message :: "payload \<Rightarrow> world \<Rightarrow> (error + unit) \<times> world" where
  "process_message content w =
     (case content of
        Unparsable \<Rightarrow> (Inl Json_error, w)
      | Payload message \<Rightarrow> fanout (tweetId message) (followers message) w)"

definition on_message :: "payload option \<Rightarrow> world \<Rightarrow> world" where
  "on_message msg w =
     (case msg of
        None \<Rightarrow> w
      | Some content \<Rightarrow>
          (case process_message content w of
             (Inr _, w1) \<Rightarrow> ack content w1
           | (Inl e, w1) \<Rightarrow> nack_requeue content w1))"

text \<open>\<^verbatim>\<open>channel.consume\<close>: the callback runs on each delivery, in the order of delivery.\<close>

definition consume :: "payload option list \<Rightarrow> world \<Rightarrow> world" where
  "consume deliveries w = foldl (\<lambda>w1 msg. on_message msg w1) w deliveries"

section \<open>Read path: \<^verbatim>\<open>GET /timeline/:userId\<close> (index.ts)\<close>

definition fetchTweetIdsFromRedis :: "int \<Rightarrow> world \<Rightarrow> (error + tweet list) \<times> world" where
  "fetchTweetIdsFromRedis userId =
     bind_io (lRange (Timeline userId) 0 (- 1)) (\<lambda>cachedTweetIds.
       if 0 < length cachedTweetIds then query_tweets_by_ids cachedTweetIds
       else (\<lambda>w. (Inr [], w)))"

definition fetchCelebrityTweetsFromDB :: "int \<Rightarrow> world \<Rightarrow> (error + tweet list) \<times> world" where
  "fetchCelebrityTweetsFromDB userId = query_celebrity_tweets userId CELEBRITY_THRESHOLD"

text \<open>
  \<^verbatim>\<open>new Map(entries)\<close> sets the entries one after the other; \<^verbatim>\<open>Map.prototype.set\<close> on a
  key that is present replaces the value and keeps the key's place in the iteration order.
\<close>

fun Map_set :: "('k \<times> 'v) list \<Rightarrow> 'k \<Rightarrow> 'v \<Rightarrow> ('k \<times> 'v) list" where
  "Map_set [] k v = [(k, v)]"
| "Map_set ((k', v') # m) k v =
     (if k' = k then (k, v) # m else (k', v') # Map_set m k v)"

definition new_Map :: "('k \<times> 'v) list \<Rightarrow> ('k \<times> 'v) list" where
  "new_Map entries = foldl (\<lambda>m (k, v). Map_set m k v) [] entries"

definition Map_values :: "('k \<times> 'v) list \<Rightarrow> 'v list" where
  "Map_values m = map snd m"

definition uniqueTweets :: "tweet list \<Rightarrow> tweet list" where
  "uniqueTweets allTweets = Map_values (new_Map (map (\<lambda>tweet. (id' tweet, tweet)) allTweets))"

text \<open>
  \<^verbatim>\<open>Array.prototype.sort\<close> is stable: \<open>a\<close> comes before \<open>b\<close> when the comparator is negative
  on \<open>(a, b)\<close>, and elements that compare equal keep their order.
\<close>

fun insert_sorted :: "('a \<Rightarrow> 'a \<Rightarrow> int) \<Rightarrow> 'a \<Rightarrow> 'a list \<Rightarrow> 'a list" where
  "insert_sorted cmp x [] = [x]"
| "insert_sorted cmp x (y # ys) =
     (if cmp x y \<le> 0 then x # y # ys else y # insert_sorted cmp x ys)"

definition array_sort :: "('a \<Rightarrow> 'a \<Rightarrow> int) \<Rightarrow> 'a list \<Rightarrow> 'a list" where
  "array_sort cmp xs = foldr (insert_sorted cmp) xs []"

definition slice :: "nat \<Rightarrow> nat \<Rightarrow> 'a list \<Rightarrow> 'a list" where
  "slice start end xs = take (end - start) (drop start xs)"

definition timeline :: "tweet list \<Rightarrow> tweet list \<Rightarrow> tweet list" where
  "timeline cachedTweets celebrityTweets =
     slice 0 20 (array_sort (\<lambda>a b. timestamp b - timestamp a)
       (uniqueTweets (cachedTweets @ celebrityTweets)))"

text \<open>
  The route parameter is \<open>None\<close> when the path segment is empty; any other segment,
  \<^verbatim>\<open>0\<close> included, is a non-empty string and passes the first check.
\<close>

definition get_timeline_try :: "int option \<Rightarrow> world \<Rightarrow> (error + response) \<times> world" where
  "get_timeline_try param w =
     (case param of
        None \<Rightarrow> (Inr (error_response 400 ''userId is required''), w)
      | Some userId \<Rightarrow>
          bind_io (query_user userId) (\<lambda>userCheckResult.
            if length userCheckResult = 0 then
              (\<lambda>w1. (Inr (error_response 404 ''User not found''), w1))
            else
              bind_io (fetchTweetIdsFromRedis userId) (\<lambda>cachedTweets.
              bind_io (fetchCelebrityTweetsFromDB userId) (\<lambda>celebrityTweets w3.
                (Inr \<lparr>status = 200,
                      json = Timeline_json userId (timeline cachedTweets celebrityTweets)
                        (length cachedTweets) (length celebrityTweets)
                        (length (uniqueTweets (cachedTweets @ celebrityTweets)))
                        (length (timeline cachedTweets celebrityTweets))\<rparr>, w3)))) w)"

definition get_timeline :: "int option \<Rightarrow> world \<Rightarrow> response \<times> world" where
  "get_timeline param w =
     (case get_timeline_try param w of
        (Inr res, w1) \<Rightarrow> (res, w1)
      | (Inl e, w1) \<Rightarrow> (error_response 500 ''Internal server error'', w1))"

text \<open>The page of a response, when it has one.\<close>

definition page_of :: "response \<Rightarrow> tweet list option" where
  "page_of res = (case json res of Timeline_json _ page _ _ _ _ \<Rightarrow> Some page | _ \<Rightarrow> None)"

section \<open>Describing states\<close>

text \<open>The events logged between two states.\<close>

definition events_of :: "world \<Rightarrow> world \<Rightarrow> event list" where
  "events_of w w1 = drop (length (log w)) (log w1)"

text \<open>
  The cache once the updates of an item for the given consumers have completed, each a
  push in front followed by a trim to the first 20 entries.
\<close>

definition cache_after ::
  "int \<Rightarrow> int list \<Rightarrow> (redis_key \<Rightarrow> int list) \<Rightarrow> redis_key \<Rightarrow> int list" where
  "cache_after tweet_id follower_ids r =
     fold (\<lambda>f r1. r1(Timeline f := take 20 (tweet_id # r1 (Timeline f)))) follower_ids r"





section \<open>Concrete inputs\<close>

text \<open>
  In \<open>base_world\<close> producer 1 has the three followers 3, 4 and 5, and producer 2 has six
  followers, consumer 3 among them; the server has started, and no call fails.
\<close>

definition cached_copy :: tweet where
  "cached_copy = \<lparr>id' = 7, sender_id = 1, text' = ''from the cache'', timestamp = 10\<rparr>"

definition broadcast_copy :: tweet where
  "broadcast_copy = \<lparr>id' = 7, sender_id = 1, text' = ''from the store'', timestamp = 10\<rparr>"

definition base_world :: world where
  "base_world =
     \<lparr>users = [1, 2, 3, 4, 5, 6, 7, 8],
      follows = [(3, 1), (4, 1), (5, 1), (3, 2), (4, 2), (5, 2), (6, 2), (7, 2), (8, 2)],
      tweets = [], tweets_id_seq = 100, current_timestamp = 1000,
      redis = (\<lambda>k. []), rabbitmq_url = True, channel = True, queue = [],
      calls = 0, fails = (\<lambda>i. False), log = []\<rparr>"

definition job_101 :: job where
  "job_101 = \<lparr>tweetId = 101, followers = [3, 4]\<rparr>"

definition request_narrow :: tweet_request where
  "request_narrow = \<lparr>body_userId = Some 1, body_text = Some ''hello''\<rparr>"

definition request_broadcast :: tweet_request where
  "request_broadcast = \<lparr>body_userId = Some 2, body_text = Some ''news''\<rparr>"

definition request_no_text :: tweet_request where
  "request_no_text = \<lparr>body_userId = Some 1, body_text = None\<rparr>"

definition tweet_101 :: tweet where
  "tweet_101 = \<lparr>id' = 101, sender_id = 1, text' = ''hello'', timestamp = 1000\<rparr>"

definition tweet_news :: tweet where
  "tweet_news = \<lparr>id' = 101, sender_id = 2, text' = ''news'', timestamp = 1000\<rparr>"

definition job_narrow :: job where
  "job_narrow = \<lparr>tweetId = 101, followers = [3, 4, 5]\<rparr>"

definition tweet_202 :: tweet where
  "tweet_202 = \<lparr>id' = 202, sender_id = 2, text' = ''news'', timestamp = 2000\<rparr>"

definition cache_down_world :: world where
  "cache_down_world = base_world\<lparr>tweets := [tweet_202], fails := (\<lambda>i. i = 1)\<rparr>"





section \<open>The merge: deduplication, order, page size\<close>

lemma Map_set_keys:
  "map fst (Map_set m k v) = (if k \<in> fst ` set m then map fst m else map fst m @ [k])"
  by (induction m k v rule: Map_set.induct) auto

lemma Map_set_distinct:
  "distinct (map fst m) \<Longrightarrow> distinct (map fst (Map_set m k v))"
  by (simp add: Map_set_keys)

lemma map_of_Map_set: "map_of (Map_set m k v) = (map_of m)(k \<mapsto> v)"
  by (induction m k v rule: Map_set.induct) auto

lemma foldl_Map_set_distinct:
  "distinct (map fst m) \<Longrightarrow> distinct (map fst (foldl (\<lambda>m (k, v). Map_set m k v) m es))"
  by (induction es arbitrary: m) (auto simp: Map_set_distinct)

lemma new_Map_distinct: "distinct (map fst (new_Map es))"
  by (simp add: new_Map_def foldl_Map_set_distinct)

lemma map_of_foldl_Map_set:
  "map_of (foldl (\<lambda>m (k, v). Map_set m k v) m es) = map_of m ++ map_of (rev es)"
  by (induction es arbitrary: m) (auto simp: map_of_Map_set)

lemma map_of_new_Map: "map_of (new_Map es) = map_of (rev es)"
  by (simp add: new_Map_def map_of_foldl_Map_set)

lemma new_Map_entry_iff:
  "(k, v) \<in> set (new_Map es) \<longleftrightarrow> map_of (rev es) k = Some v"
  using new_Map_distinct [of es] map_of_new_Map [of es]
  by (metis map_of_eq_Some_iff)

lemma map_of_tagged:
  "map_of (map (\<lambda>t. (f t, t)) xs) k = find (\<lambda>t. f t = k) xs"
  by (induction xs) auto

lemma find_Some_key: "find P xs = Some x \<Longrightarrow> P x \<and> x \<in> set xs"
  by (induction xs) (auto split: if_splits)

lemma uniqueTweets_iff:
  "t \<in> set (uniqueTweets all) \<longleftrightarrow> find (\<lambda>c. id' c = id' t) (rev all) = Some t"
proof -
  let ?es = "map (\<lambda>tweet. (id' tweet, tweet)) all"
  have look: "map_of (rev ?es) k = find (\<lambda>c. id' c = k) (rev all)" for k
    by (simp add: rev_map map_of_tagged)
  have "t \<in> set (uniqueTweets all) \<longleftrightarrow> (\<exists>k. (k, t) \<in> set (new_Map ?es))"
    by (force simp: uniqueTweets_def Map_values_def)
  also have "\<dots> \<longleftrightarrow> (\<exists>k. find (\<lambda>c. id' c = k) (rev all) = Some t)"
    by (simp add: new_Map_entry_iff look)
  also have "\<dots> \<longleftrightarrow> find (\<lambda>c. id' c = id' t) (rev all) = Some t"
    using find_Some_key by fastforce
  finally show ?thesis .
qed

lemma uniqueTweets_ids:
  "map id' (uniqueTweets all) = map fst (new_Map (map (\<lambda>tweet. (id' tweet, tweet)) all))"
proof -
  let ?es = "map (\<lambda>tweet. (id' tweet, tweet)) all"
  have "\<forall>p \<in> set (new_Map ?es). fst p = id' (snd p)"
  proof
    fix p assume "p \<in> set (new_Map ?es)"
    then have "map_of (rev ?es) (fst p) = Some (snd p)"
      using new_Map_entry_iff [of "fst p" "snd p" ?es] by simp
    then have "find (\<lambda>c. id' c = fst p) (rev all) = Some (snd p)"
      by (simp add: rev_map map_of_tagged)
    then show "fst p = id' (snd p)" using find_Some_key by fastforce
  qed
  then show ?thesis
    by (simp add: uniqueTweets_def Map_values_def)
qed

lemma uniqueTweets_distinct: "distinct (map id' (uniqueTweets all))"
  by (simp add: uniqueTweets_ids new_Map_distinct)


lemma insert_sorted_insort:
  "insert_sorted (\<lambda>a b. timestamp b - timestamp a) x ys = insort_key (\<lambda>t. - timestamp t) x ys"
  by (induction ys) auto

lemma array_sort_sort_key:
  "array_sort (\<lambda>a b. timestamp b - timestamp a) xs = sort_key (\<lambda>t. - timestamp t) xs"
  by (induction xs) (auto simp: array_sort_def insert_sorted_insort sort_key_def)

lemma array_sort_order:
  "array_sort (\<lambda>a b. timestamp b - timestamp a) xs = order_by_timestamp_desc xs"
  by (simp add: array_sort_sort_key order_by_timestamp_desc_def)

lemma order_by_set: "set (order_by_timestamp_desc xs) = set xs"
  by (simp add: order_by_timestamp_desc_def)

lemma order_by_sorted:
  "sorted_wrt (\<lambda>a b. timestamp b \<le> timestamp a) (order_by_timestamp_desc xs)"
proof -
  have "sorted (map (\<lambda>t. - timestamp t) (order_by_timestamp_desc xs))"
    by (simp add: order_by_timestamp_desc_def)
  then show ?thesis by (simp add: sorted_wrt_map)
qed

lemma order_by_distinct_ids:
  "distinct (map id' (order_by_timestamp_desc xs)) = distinct (map id' xs)"
  by (simp add: order_by_timestamp_desc_def distinct_map)

lemma timeline_eq:
  "timeline cached celeb = take 20 (order_by_timestamp_desc (uniqueTweets (cached @ celeb)))"
  by (simp add: timeline_def slice_def array_sort_order)

lemma timeline_distinct: "distinct (map id' (timeline cached celeb))"
  by (simp add: timeline_eq take_map [symmetric] distinct_take order_by_distinct_ids
      uniqueTweets_distinct del: take_map)

text \<open>
  Claim C2. Whatever the cache lookup and the broadcast query return, the page of the
  merge has no two entries with the same item id, is ordered by creation time, newest
  first, and holds at most 20 entries.
\<close>

theorem merge_correct:
  "distinct (map id' (timeline cachedTweets celebrityTweets)) \<and>
   sorted_wrt (\<lambda>a b. timestamp b \<le> timestamp a) (timeline cachedTweets celebrityTweets) \<and>
   length (timeline cachedTweets celebrityTweets) \<le> 20"
proof (intro conjI)
  show "distinct (map id' (timeline cachedTweets celebrityTweets))"
    by (rule timeline_distinct)
  show "sorted_wrt (\<lambda>a b. timestamp b \<le> timestamp a) (timeline cachedTweets celebrityTweets)"
    by (simp add: timeline_eq sorted_wrt_take order_by_sorted)
  show "length (timeline cachedTweets celebrityTweets) \<le> 20"
    by (simp add: timeline_eq)
qed


lemma find_append:
  "find P (xs @ ys) = (case find P xs of None \<Rightarrow> find P ys | Some x \<Rightarrow> Some x)"
  by (induction xs) auto

lemma find_rev_last:
  "filter P xs \<noteq> [] \<Longrightarrow> find P (rev xs) = Some (last (filter P xs))"
  by (induction xs rule: rev_induct) (auto simp: find_append)

lemma filter_key_singleton:
  "distinct (map f xs) \<Longrightarrow> x \<in> set xs \<Longrightarrow> filter (\<lambda>y. f y = f x) xs = [x]"
proof (induction xs)
  case Nil
  then show ?case by simp
next
  case (Cons a xs)
  show ?case
  proof (cases "a = x")
    case True
    have "filter (\<lambda>y. f y = f x) xs = []"
      using Cons.prems True by (force simp: filter_empty_conv image_iff)
    with True show ?thesis by simp
  next
    case False
    with Cons show ?thesis by (auto simp: image_iff)
  qed
qed

lemma timeline_subset: "set (timeline cached celeb) \<subseteq> set (uniqueTweets (cached @ celeb))"
proof -
  have "set (timeline cached celeb) \<subseteq> set (order_by_timestamp_desc (uniqueTweets (cached @ celeb)))"
    unfolding timeline_eq by (rule set_take_subset)
  then show ?thesis by (simp add: order_by_set)
qed

text \<open>
  Claim C10. For an item id that the broadcast query returned, the deduplicated list
  holds exactly one record with that id, and it is the record of the broadcast query
  (its last one with that id), whatever the cache lookup returned for the id: a later
  entry of the concatenated list overwrites the earlier one in the map. So an entry of
  the page with that id is the record of the broadcast query.
\<close>

theorem dedup_keeps_broadcast_record:
  assumes "k \<in> id' ` set celebrityTweets"
  shows "filter (\<lambda>t. id' t = k) (uniqueTweets (cachedTweets @ celebrityTweets)) =
           [last (filter (\<lambda>t. id' t = k) celebrityTweets)] \<and>
         (\<forall>t \<in> set (timeline cachedTweets celebrityTweets).
            id' t = k \<longrightarrow> t = last (filter (\<lambda>t. id' t = k) celebrityTweets))"
proof -
  let ?b = "last (filter (\<lambda>t. id' t = k) celebrityTweets)"
  have ne: "filter (\<lambda>t. id' t = k) celebrityTweets \<noteq> []"
    using assms by (auto simp: filter_empty_conv)
  then have "?b \<in> set (filter (\<lambda>t. id' t = k) celebrityTweets)"
    by (rule last_in_set)
  then have key: "id' ?b = k" by simp
  have "find (\<lambda>c. id' c = k) (rev (cachedTweets @ celebrityTweets)) = Some ?b"
    using ne by (simp add: find_append find_rev_last)
  then have "?b \<in> set (uniqueTweets (cachedTweets @ celebrityTweets))"
    by (simp add: uniqueTweets_iff key)
  then have "filter (\<lambda>y. id' y = id' ?b) (uniqueTweets (cachedTweets @ celebrityTweets)) = [?b]"
    by (rule filter_key_singleton [OF uniqueTweets_distinct])
  then have one: "filter (\<lambda>t. id' t = k) (uniqueTweets (cachedTweets @ celebrityTweets)) = [?b]"
    by (simp add: key)
  have "t = ?b" if "t \<in> set (timeline cachedTweets celebrityTweets)" "id' t = k" for t
  proof -
    have "t \<in> set (uniqueTweets (cachedTweets @ celebrityTweets))"
      using that(1) timeline_subset by blast
    then have "t \<in> set (filter (\<lambda>t. id' t = k) (uniqueTweets (cachedTweets @ celebrityTweets)))"
      using that(2) by simp
    then show ?thesis by (simp add: one)
  qed
  with one show ?thesis by blast
qed

theorem dedup_keeps_broadcast_record_witness:
  "7 \<in> id' ` set [broadcast_copy] \<and>
   filter (\<lambda>t. id' t = 7) (uniqueTweets ([cached_copy] @ [broadcast_copy])) = [broadcast_copy] \<and>
   timeline [cached_copy] [broadcast_copy] = [broadcast_copy]"
proof -
  have "timeline [cached_copy] [broadcast_copy] = [broadcast_copy]"
    by (simp add: timeline_def slice_def array_sort_def uniqueTweets_def new_Map_def
        Map_values_def cached_copy_def broadcast_copy_def)
  then show ?thesis
    using dedup_keeps_broadcast_record [of 7 "[broadcast_copy]" "[cached_copy]"]
    by (simp add: broadcast_copy_def)
qed

section \<open>External calls\<close>

lemma external_ok:
  "\<not> fails w (calls w) \<Longrightarrow>
   external e act w = (case act (w\<lparr>calls := Suc (calls w)\<rparr>) of (x, w2) \<Rightarrow> (Inr x, w2))"
  by (simp add: external_def)

lemma external_fail:
  "fails w (calls w) \<Longrightarrow> external e act w = (Inl e, w\<lparr>calls := Suc (calls w)\<rparr>)"
  by (simp add: external_def)

lemma calls_succeed_Suc:
  "calls_succeed (Suc n) w \<longleftrightarrow> \<not> fails w (calls w) \<and> calls_succeed n (w\<lparr>calls := Suc (calls w)\<rparr>)"
proof -
  have "(\<forall>i<Suc n. \<not> fails w (calls w + i)) \<longleftrightarrow>
        \<not> fails w (calls w) \<and> (\<forall>i<n. \<not> fails w (calls w + Suc i))"
    by (metis (no_types) Suc_less_eq add_0_right less_Suc_eq_0_disj zero_less_Suc)
  then show ?thesis by (simp add: calls_succeed_def)
qed


lemma redis_range_20: "redis_range 0 19 xs = take 20 xs"
proof (cases "length xs \<le> 20")
  case True
  then show ?thesis by (cases xs) (auto simp: redis_range_def min_def)
next
  case False
  then show ?thesis by (auto simp: redis_range_def min_def)
qed

lemma lPush_ok:
  "\<not> fails w (calls w) \<Longrightarrow>
   lPush key v w = (Inr (Suc (length (redis w key))),
                    w\<lparr>calls := Suc (calls w), redis := (redis w)(key := v # redis w key)\<rparr>)"
  by (simp add: lPush_def external_ok)

lemma lPush_fail:
  "fails w (calls w) \<Longrightarrow> lPush key v w = (Inl Redis_error, w\<lparr>calls := Suc (calls w)\<rparr>)"
  by (simp add: lPush_def external_fail)

lemma lTrim_ok:
  "\<not> fails w (calls w) \<Longrightarrow>
   lTrim key 0 19 w = (Inr (), w\<lparr>calls := Suc (calls w),
                                  redis := (redis w)(key := take 20 (redis w key))\<rparr>)"
  by (simp add: lTrim_def external_ok redis_range_20)

lemma lTrim_fail:
  "fails w (calls w) \<Longrightarrow> lTrim key start stop w = (Inl Redis_error, w\<lparr>calls := Suc (calls w)\<rparr>)"
  by (simp add: lTrim_def external_fail)

text \<open>One completed iteration of the loop.\<close>

lemma push_trim_completed:
  assumes "lPush key v w = (Inr n, w1)" and "lTrim key 0 19 w1 = (Inr u, w2)"
  shows "redis w2 = (redis w)(key := take 20 (v # redis w key)) \<and> calls w2 = calls w + 2 \<and>
         fails w2 = fails w"
proof -
  have f0: "\<not> fails w (calls w)"
    using assms(1) by (auto simp: lPush_def external_def split: if_splits)
  then have w1: "w1 = w\<lparr>calls := Suc (calls w), redis := (redis w)(key := v # redis w key)\<rparr>"
    using assms(1) by (simp add: lPush_ok)
  have f1: "\<not> fails w1 (calls w1)"
    using assms(2) by (auto simp: lTrim_def external_def split: if_splits)
  then have "w2 = w1\<lparr>calls := Suc (calls w1), redis := (redis w1)(key := take 20 (redis w1 key))\<rparr>"
    using assms(2) by (simp add: lTrim_ok)
  then show ?thesis by (simp add: w1)
qed

section \<open>The worker: fan-out, settlement, cache depth\<close>

lemma cache_after_Nil: "cache_after x [] r = r"
  by (simp add: cache_after_def)

lemma cache_after_Cons:
  "cache_after x (f # fs) r = cache_after x fs (r(Timeline f := take 20 (x # r (Timeline f))))"
  by (simp add: cache_after_def)

lemma fanout_ok:
  "calls_succeed (2 * length fs) w \<Longrightarrow>
   fanout x fs w = (Inr (), w\<lparr>calls := calls w + 2 * length fs,
                              redis := cache_after x fs (redis w)\<rparr>)"
proof (induction fs arbitrary: w)
  case Nil
  then show ?case by (simp add: cache_after_Nil)
next
  case (Cons f fs)
  let ?w1 = "w\<lparr>calls := Suc (calls w), redis := (redis w)(Timeline f := x # redis w (Timeline f))\<rparr>"
  let ?w2 = "w\<lparr>calls := Suc (Suc (calls w)),
               redis := (redis w)(Timeline f := take 20 (x # redis w (Timeline f)))\<rparr>"
  have f0: "\<not> fails w (calls w)" and f1: "\<not> fails w (Suc (calls w))"
    using Cons.prems by (auto simp: calls_succeed_def dest: spec [of _ 0] spec [of _ 1])
  have rest: "calls_succeed (2 * length fs) ?w2"
    using Cons.prems by (auto simp: calls_succeed_def dest: spec [of _ "Suc (Suc i)" for i])
  have "fanout x (f # fs) w = fanout x fs ?w2"
    using f0 f1 by (simp add: lPush_ok lTrim_ok)
  also have "\<dots> = (Inr (), ?w2\<lparr>calls := calls ?w2 + 2 * length fs,
                                  redis := cache_after x fs (redis ?w2)\<rparr>)"
    by (rule Cons.IH [OF rest])
  finally show ?case by (simp add: cache_after_Cons)
qed

lemma fanout_push_fails:
  "m < length fs \<Longrightarrow> calls_succeed (2 * m) w \<Longrightarrow> fails w (calls w + 2 * m) \<Longrightarrow>
   fanout x fs w = (Inl Redis_error, w\<lparr>calls := calls w + 2 * m + 1,
                                        redis := cache_after x (take m fs) (redis w)\<rparr>)"
proof (induction fs arbitrary: w m)
  case Nil
  then show ?case by simp
next
  case (Cons f fs)
  show ?case
  proof (cases m)
    case 0
    with Cons.prems show ?thesis by (simp add: lPush_fail cache_after_Nil)
  next
    case (Suc k)
    let ?w2 = "w\<lparr>calls := Suc (Suc (calls w)),
                 redis := (redis w)(Timeline f := take 20 (x # redis w (Timeline f)))\<rparr>"
    have f0: "\<not> fails w (calls w)" and f1: "\<not> fails w (Suc (calls w))"
      using Cons.prems Suc by (auto simp: calls_succeed_def dest: spec [of _ 0] spec [of _ 1])
    have rest: "calls_succeed (2 * k) ?w2"
      using Cons.prems Suc
      by (auto simp: calls_succeed_def dest: spec [of _ "Suc (Suc i)" for i])
    have bad: "fails ?w2 (calls ?w2 + 2 * k)"
      using Cons.prems Suc by simp
    have k: "k < length fs" using Cons.prems Suc by simp
    have "fanout x (f # fs) w = fanout x fs ?w2"
      using f0 f1 by (simp add: lPush_ok lTrim_ok)
    also have "\<dots> = (Inl Redis_error, ?w2\<lparr>calls := calls ?w2 + 2 * k + 1,
                                  redis := cache_after x (take k fs) (redis ?w2)\<rparr>)"
      by (rule Cons.IH [OF k rest bad])
    finally show ?thesis by (simp add: Suc cache_after_Cons)
  qed
qed

lemma fanout_trim_fails:
  "m < length fs \<Longrightarrow> calls_succeed (2 * m + 1) w \<Longrightarrow> fails w (calls w + 2 * m + 1) \<Longrightarrow>
   fanout x fs w =
     (Inl Redis_error,
      w\<lparr>calls := calls w + 2 * m + 2,
        redis := (cache_after x (take m fs) (redis w))
                   (Timeline (fs ! m) := x # cache_after x (take m fs) (redis w) (Timeline (fs ! m)))\<rparr>)"
proof (induction fs arbitrary: w m)
  case Nil
  then show ?case by simp
next
  case (Cons f fs)
  have f0: "\<not> fails w (calls w)"
    using Cons.prems by (auto simp: calls_succeed_def dest: spec [of _ 0])
  show ?case
  proof (cases m)
    case 0
    with Cons.prems f0 show ?thesis
      by (simp add: lPush_ok lTrim_fail cache_after_Nil fun_upd_def)
  next
    case (Suc k)
    let ?w2 = "w\<lparr>calls := Suc (Suc (calls w)),
                 redis := (redis w)(Timeline f := take 20 (x # redis w (Timeline f)))\<rparr>"
    have f1: "\<not> fails w (Suc (calls w))"
      using Cons.prems Suc by (auto simp: calls_succeed_def dest: spec [of _ 1])
    have rest: "calls_succeed (2 * k + 1) ?w2"
      using Cons.prems Suc
      by (auto simp: calls_succeed_def dest: spec [of _ "Suc (Suc i)" for i])
    have bad: "fails ?w2 (calls ?w2 + 2 * k + 1)"
      using Cons.prems Suc by simp
    have k: "k < length fs" using Cons.prems Suc by simp
    have "fanout x (f # fs) w = fanout x fs ?w2"
      using f0 f1 by (simp add: lPush_ok lTrim_ok)
    also have "\<dots> = (Inl Redis_error,
      ?w2\<lparr>calls := calls ?w2 + 2 * k + 2,
        redis := (cache_after x (take k fs) (redis ?w2))
                   (Timeline (fs ! k) := x # cache_after x (take k fs) (redis ?w2) (Timeline (fs ! k)))\<rparr>)"
      by (rule Cons.IH [OF k rest bad])
    finally show ?thesis by (simp add: Suc cache_after_Cons fun_upd_def)
  qed
qed

lemma fanout_returns_iff:
  "(\<exists>w1. fanout x fs w = (Inr (), w1)) \<longleftrightarrow> calls_succeed (2 * length fs) w"
proof
  assume "calls_succeed (2 * length fs) w"
  then show "\<exists>w1. fanout x fs w = (Inr (), w1)" by (simp add: fanout_ok)
next
  assume "\<exists>w1. fanout x fs w = (Inr (), w1)"
  then show "calls_succeed (2 * length fs) w"
  proof (induction fs arbitrary: w)
    case Nil
    then show ?case by (simp add: calls_succeed_def)
  next
    case (Cons f fs)
    then obtain w3 where run: "fanout x (f # fs) w = (Inr (), w3)" by blast
    have f0: "\<not> fails w (calls w)"
      using run by (auto simp: lPush_fail)
    let ?w1 = "w\<lparr>calls := Suc (calls w), redis := (redis w)(Timeline f := x # redis w (Timeline f))\<rparr>"
    have f1: "\<not> fails w (Suc (calls w))"
      using run f0 lTrim_fail [of ?w1 "Timeline f" 0 19] by (auto simp: lPush_ok)
    let ?w2 = "w\<lparr>calls := Suc (Suc (calls w)),
                 redis := (redis w)(Timeline f := take 20 (x # redis w (Timeline f)))\<rparr>"
    have "fanout x fs ?w2 = (Inr (), w3)"
      using run f0 f1 by (simp add: lPush_ok lTrim_ok)
    then have "calls_succeed (2 * length fs) ?w2" using Cons.IH by blast
    then have "calls_succeed (2 * length fs) (w\<lparr>calls := Suc (calls w)\<rparr>\<lparr>calls := Suc (Suc (calls w))\<rparr>)"
      by (simp add: calls_succeed_def)
    then show ?case
      using f0 f1 by (simp add: calls_succeed_Suc)
  qed
qed

lemma lPush_frame:
  "lPush key v w = (r, w1) \<Longrightarrow>
   log w1 = log w \<and> queue w1 = queue w \<and> tweets w1 = tweets w \<and> follows w1 = follows w \<and>
   users w1 = users w \<and> fails w1 = fails w"
  by (auto simp: lPush_def external_def Let_def split: if_splits)

lemma lTrim_frame:
  "lTrim key a b w = (r, w1) \<Longrightarrow>
   log w1 = log w \<and> queue w1 = queue w \<and> tweets w1 = tweets w \<and> follows w1 = follows w \<and>
   users w1 = users w \<and> fails w1 = fails w"
  by (auto simp: lTrim_def external_def Let_def split: if_splits)

lemma fanout_frame:
  "fanout x fs w = (r, w1) \<Longrightarrow>
   log w1 = log w \<and> queue w1 = queue w \<and> tweets w1 = tweets w \<and> follows w1 = follows w \<and>
   users w1 = users w \<and> fails w1 = fails w"
proof (induction fs arbitrary: w)
  case Nil
  then show ?case by simp
next
  case (Cons f fs)
  obtain r1 w1' where p: "lPush (Timeline f) x w = (r1, w1')" by (cases "lPush (Timeline f) x w")
  note fp = lPush_frame [OF p]
  show ?case
  proof (cases r1)
    case (Inl e)
    with Cons.prems p fp show ?thesis by auto
  next
    case (Inr n)
    obtain r2 w2 where t: "lTrim (Timeline f) 0 19 w1' = (r2, w2)"
      by (cases "lTrim (Timeline f) 0 19 w1'")
    note ft = lTrim_frame [OF t]
    show ?thesis
    proof (cases r2)
      case (Inl e)
      with Cons.prems p t Inr fp ft show ?thesis by auto
    next
      case (Inr u)
      with Cons.prems p t \<open>r1 = Inr n\<close> have "fanout x fs w2 = (r, w1)" by simp
      from Cons.IH [OF this] fp ft show ?thesis by simp
    qed
  qed
qed

lemma fanout_result:
  "fanout x fs w = (r, w1) \<Longrightarrow> r = Inr () \<or> r = Inl Redis_error"
proof (induction fs arbitrary: w)
  case Nil
  then show ?case by auto
next
  case (Cons f fs)
  then show ?case
    by (auto simp: lPush_def lTrim_def external_def Let_def split: if_splits)
qed

lemma on_message_ok:
  assumes "calls_succeed (2 * length (followers j)) w"
  shows "on_message (Some (Payload j)) w =
         ack (Payload j) (w\<lparr>calls := calls w + 2 * length (followers j),
                            redis := cache_after (tweetId j) (followers j) (redis w)\<rparr>)"
  using assms by (simp add: on_message_def process_message_def fanout_ok)

lemma on_message_failed:
  assumes "\<not> calls_succeed (2 * length (followers j)) w"
  shows "on_message (Some (Payload j)) w =
         nack_requeue (Payload j) (snd (fanout (tweetId j) (followers j) w))"
proof -
  obtain r w1 where run: "fanout (tweetId j) (followers j) w = (r, w1)"
    by (cases "fanout (tweetId j) (followers j) w")
  have "r \<noteq> Inr ()"
    using assms run fanout_returns_iff [of "tweetId j" "followers j" w] by auto
  then have "r = Inl Redis_error" using fanout_result [OF run] by simp
  then show ?thesis by (simp add: on_message_def process_message_def run)
qed

text \<open>
  Claim C9. The worker acknowledges a job exactly when every cache command of the job
  (a push and a trim for each target) succeeds. When one fails, the job is negatively
  acknowledged and put back on the queue, and the cache keeps the updates made before
  the failure: the first \<open>m\<close> targets hold the item when the push of target \<open>m\<close> fails,
  and target \<open>m\<close> holds it too, untrimmed, when its trim fails.
\<close>

theorem ack_policy:
  "(Acked (Payload j) \<in> set (events_of w (on_message (Some (Payload j)) w)) \<longleftrightarrow>
      calls_succeed (2 * length (followers j)) w) \<and>
   (calls_succeed (2 * length (followers j)) w \<longrightarrow>
      events_of w (on_message (Some (Payload j)) w) = [Acked (Payload j)] \<and>
      queue (on_message (Some (Payload j)) w) = queue w) \<and>
   (\<not> calls_succeed (2 * length (followers j)) w \<longrightarrow>
      events_of w (on_message (Some (Payload j)) w) = [Requeued (Payload j)] \<and>
      queue (on_message (Some (Payload j)) w) = Payload j # queue w) \<and>
   (m < length (followers j) \<and> calls_succeed (2 * m) w \<and> fails w (calls w + 2 * m) \<longrightarrow>
      redis (on_message (Some (Payload j)) w) =
        cache_after (tweetId j) (take m (followers j)) (redis w)) \<and>
   (m < length (followers j) \<and> calls_succeed (2 * m + 1) w \<and> fails w (calls w + 2 * m + 1) \<longrightarrow>
      redis (on_message (Some (Payload j)) w) =
        (cache_after (tweetId j) (take m (followers j)) (redis w))
          (Timeline (followers j ! m) :=
             tweetId j # cache_after (tweetId j) (take m (followers j)) (redis w)
                           (Timeline (followers j ! m))))"
proof -
  let ?W = "on_message (Some (Payload j)) w"
  let ?n = "length (followers j)"
  have ok: "events_of w ?W = [Acked (Payload j)] \<and> queue ?W = queue w"
    if "calls_succeed (2 * ?n) w"
    using that by (simp add: on_message_ok ack_def events_of_def)
  have bad: "events_of w ?W = [Requeued (Payload j)] \<and> queue ?W = Payload j # queue w"
    if "\<not> calls_succeed (2 * ?n) w"
  proof -
    obtain r w1 where run: "fanout (tweetId j) (followers j) w = (r, w1)"
      by (cases "fanout (tweetId j) (followers j) w")
    from fanout_frame [OF run] that show ?thesis
      by (simp add: on_message_failed run nack_requeue_def events_of_def)
  qed
  have iff: "Acked (Payload j) \<in> set (events_of w ?W) \<longleftrightarrow> calls_succeed (2 * ?n) w"
    using ok bad by (cases "calls_succeed (2 * ?n) w") auto
  have push: "redis ?W = cache_after (tweetId j) (take m (followers j)) (redis w)"
    if "m < ?n" "calls_succeed (2 * m) w" "fails w (calls w + 2 * m)"
  proof -
    have "2 * m < 2 * ?n" using that(1) by simp
    then have "\<not> calls_succeed (2 * ?n) w"
      using that(3) unfolding calls_succeed_def by blast
    then show ?thesis
      using fanout_push_fails [OF that, of "tweetId j"]
      by (simp add: on_message_failed nack_requeue_def)
  qed
  have trim: "redis ?W = (cache_after (tweetId j) (take m (followers j)) (redis w))
          (Timeline (followers j ! m) :=
             tweetId j # cache_after (tweetId j) (take m (followers j)) (redis w)
                           (Timeline (followers j ! m)))"
    if "m < ?n" "calls_succeed (2 * m + 1) w" "fails w (calls w + 2 * m + 1)"
  proof -
    have "2 * m + 1 < 2 * ?n" using that(1) by simp
    then have "\<not> calls_succeed (2 * ?n) w"
      using that(3) unfolding calls_succeed_def by (metis add.assoc)
    then show ?thesis
      using fanout_trim_fails [OF that, of "tweetId j"]
      by (simp add: on_message_failed nack_requeue_def)
  qed
  show ?thesis using iff ok bad push trim by blast
qed

lemma cache_after_bounded:
  "length (r k) \<le> 20 \<Longrightarrow> length (cache_after x fs r k) \<le> 20"
  by (induction fs arbitrary: r) (simp_all add: cache_after_Nil cache_after_Cons)

lemma cache_after_length:
  "g \<in> set fs \<Longrightarrow> length (cache_after x fs r (Timeline g)) \<le> 20"
proof (induction fs arbitrary: r)
  case Nil
  then show ?case by simp
next
  case (Cons f fs)
  show ?case
  proof (cases "g = f")
    case True
    then show ?thesis by (simp add: cache_after_Cons cache_after_bounded)
  next
    case False
    with Cons show ?thesis by (simp add: cache_after_Cons)
  qed
qed

lemma on_message_delivered:
  assumes "\<forall>i. \<not> fails w i"
  shows "on_message (Some (Payload j)) w =
         ack (Payload j) (w\<lparr>calls := calls w + 2 * length (followers j),
                            redis := cache_after (tweetId j) (followers j) (redis w)\<rparr>)"
  using assms by (simp add: on_message_ok calls_succeed_def)

lemma on_message_depth:
  assumes "\<forall>i. \<not> fails w i" and "\<forall>k. length (redis w k) \<le> 20"
  shows "(\<forall>i. \<not> fails (on_message msg w) i) \<and> (\<forall>k. length (redis (on_message msg w) k) \<le> 20)"
proof (cases msg)
  case None
  with assms show ?thesis by (simp add: on_message_def)
next
  case (Some content)
  show ?thesis
  proof (cases content)
    case Unparsable
    with Some assms show ?thesis
      by (simp add: on_message_def process_message_def nack_requeue_def)
  next
    case (Payload j)
    with Some assms show ?thesis
      by (simp add: on_message_delivered ack_def cache_after_bounded)
  qed
qed

lemma consume_depth:
  assumes "\<forall>i. \<not> fails w i" and "\<forall>k. length (redis w k) \<le> 20"
  shows "(\<forall>i. \<not> fails (consume msgs w) i) \<and> (\<forall>k. length (redis (consume msgs w) k) \<le> 20)"
  using assms
proof (induction msgs arbitrary: w)
  case Nil
  then show ?case by (simp add: consume_def)
next
  case (Cons m ms)
  have "(\<forall>i. \<not> fails (on_message m w) i) \<and> (\<forall>k. length (redis (on_message m w) k) \<le> 20)"
    using Cons.prems by (rule on_message_depth)
  then have "(\<forall>i. \<not> fails (consume ms (on_message m w)) i) \<and>
             (\<forall>k. length (redis (consume ms (on_message m w)) k) \<le> 20)"
    using Cons.IH by blast
  then show ?case by (simp add: consume_def)
qed

text \<open>
  Claim C3. From any state of the cache, hence after any sequence of earlier worker
  operations, a completed operation (the push of an item id followed by the trim) leaves
  the consumer's list with at most 20 entries; when the loop of a job completes, the
  list of each of its targets has at most 20 entries; and when no call fails, lists of
  at most 20 entries stay so through any sequence of deliveries.
\<close>

theorem cache_depth_invariant:
  "(lPush (Timeline f) x w = (Inr n, w1) \<and> lTrim (Timeline f) 0 19 w1 = (Inr u, w2) \<longrightarrow>
      length (redis w2 (Timeline f)) \<le> 20) \<and>
   (fanout x fs w = (Inr u, w3) \<longrightarrow> (\<forall>g \<in> set fs. length (redis w3 (Timeline g)) \<le> 20)) \<and>
   ((\<forall>i. \<not> fails w i) \<and> (\<forall>k. length (redis w k) \<le> 20) \<longrightarrow>
      (\<forall>k. length (redis (consume deliveries w) k) \<le> 20))"
proof (intro conjI impI ballI)
  assume "lPush (Timeline f) x w = (Inr n, w1) \<and> lTrim (Timeline f) 0 19 w1 = (Inr u, w2)"
  then have "redis w2 = (redis w)(Timeline f := take 20 (x # redis w (Timeline f)))"
    using push_trim_completed by blast
  then show "length (redis w2 (Timeline f)) \<le> 20" by simp
next
  fix g
  assume run: "fanout x fs w = (Inr u, w3)" and g: "g \<in> set fs"
  then have "calls_succeed (2 * length fs) w"
    using fanout_returns_iff [of x fs w] by auto
  then have "w3 = w\<lparr>calls := calls w + 2 * length fs, redis := cache_after x fs (redis w)\<rparr>"
    using run by (simp add: fanout_ok)
  then have "redis w3 = cache_after x fs (redis w)" by simp
  then show "length (redis w3 (Timeline g)) \<le> 20"
    using g by (simp add: cache_after_length)
next
  assume "(\<forall>i. \<not> fails w i) \<and> (\<forall>k. length (redis w k) \<le> 20)"
  then show "\<forall>k. length (redis (consume deliveries w) k) \<le> 20"
    using consume_depth [of w deliveries] by blast
qed

theorem cache_depth_invariant_witness:
  "lPush (Timeline 3) 101 base_world =
     (Inr 1, base_world\<lparr>calls := 1, redis := (redis base_world)(Timeline 3 := [101])\<rparr>) \<and>
   lTrim (Timeline 3) 0 19 (base_world\<lparr>calls := 1, redis := (redis base_world)(Timeline 3 := [101])\<rparr>) =
     (Inr (), snd (fanout 101 [3] base_world)) \<and>
   fanout 101 [3] base_world = (Inr (), snd (fanout 101 [3] base_world)) \<and>
   length (redis (snd (fanout 101 [3] base_world)) (Timeline 3)) \<le> 20 \<and>
   (\<forall>i. \<not> fails base_world i) \<and> (\<forall>k. length (redis base_world k) \<le> 20) \<and>
   length (redis (consume [Some (Payload job_101), Some Unparsable, Some (Payload job_101)]
     base_world) (Timeline 3)) \<le> 20"
  using cache_depth_invariant [of 3 101 base_world 1
      "base_world\<lparr>calls := 1, redis := (redis base_world)(Timeline 3 := [101])\<rparr>" "()"
      "snd (fanout 101 [3] base_world)" "[3]" "snd (fanout 101 [3] base_world)"
      "[Some (Payload job_101), Some Unparsable, Some (Payload job_101)]"]
  by (simp add: lPush_def lTrim_def external_def base_world_def redis_range_def)

theorem ack_policy_witness:
  "calls_succeed 4 base_world \<and>
   events_of base_world (on_message (Some (Payload job_101)) base_world) = [Acked (Payload job_101)] \<and>
   \<not> calls_succeed 4 (base_world\<lparr>fails := (\<lambda>i. i = 2)\<rparr>) \<and>
   calls_succeed 2 (base_world\<lparr>fails := (\<lambda>i. i = 2)\<rparr>) \<and>
   events_of (base_world\<lparr>fails := (\<lambda>i. i = 2)\<rparr>)
     (on_message (Some (Payload job_101)) (base_world\<lparr>fails := (\<lambda>i. i = 2)\<rparr>)) =
     [Requeued (Payload job_101)] \<and>
   queue (on_message (Some (Payload job_101)) (base_world\<lparr>fails := (\<lambda>i. i = 2)\<rparr>)) =
     [Payload job_101] \<and>
   redis (on_message (Some (Payload job_101)) (base_world\<lparr>fails := (\<lambda>i. i = 2)\<rparr>)) (Timeline 3) =
     [101] \<and>
   calls_succeed 3 (base_world\<lparr>fails := (\<lambda>i. i = 3)\<rparr>) \<and>
   redis (on_message (Some (Payload job_101)) (base_world\<lparr>fails := (\<lambda>i. i = 3)\<rparr>)) (Timeline 4) =
     [101]"
proof -
  have a: "calls_succeed 4 base_world"
    by (simp add: calls_succeed_def base_world_def)
  have b: "\<not> calls_succeed 4 (base_world\<lparr>fails := (\<lambda>i. i = 2)\<rparr>)"
    by (auto simp: calls_succeed_def base_world_def)
  have c: "calls_succeed 2 (base_world\<lparr>fails := (\<lambda>i. i = 2)\<rparr>)"
    by (simp add: calls_succeed_def base_world_def)
  have d: "calls_succeed 3 (base_world\<lparr>fails := (\<lambda>i. i = 3)\<rparr>)"
    by (simp add: calls_succeed_def base_world_def)
  show ?thesis
    using a b c d ack_policy [of job_101 base_world 0]
      ack_policy [of job_101 "base_world\<lparr>fails := (\<lambda>i. i = 2)\<rparr>" 1]
      ack_policy [of job_101 "base_world\<lparr>fails := (\<lambda>i. i = 3)\<rparr>" 1]
    by (simp add: job_101_def cache_after_def base_world_def)
qed

section \<open>The write path: validation, decision, order of effects\<close>

lemmas store_defs =
  insert_tweet_def query_count_followers_def query_followers_def query_user_def
  query_tweets_by_ids_def query_celebrity_tweets_def

lemmas handler_defs =
  post_tweet_def post_tweet_try_def bind_io_def store_defs external_def
  connectRabbitMQ_def sendToQueue_def Let_def events_of_def count_followers_def
  select_followers_def CELEBRITY_THRESHOLD_def

lemma calls_succeedD: "calls_succeed n w \<Longrightarrow> i < n \<Longrightarrow> \<not> fails w (calls w + i)"
  by (simp add: calls_succeed_def)

lemma post_tweet_rejected:
  "body_userId req = None \<or> body_text req = None \<or> body_userId req = Some 0 \<or>
   body_text req = Some [] \<Longrightarrow>
   post_tweet req w = (error_response 400 ''userId and text are required'', w)"
  by (auto simp: post_tweet_def post_tweet_try_def split: option.splits)

text \<open>
  Claim C8. A write request without \<open>userId\<close> or without \<open>text\<close> is answered with
  status 400 and leaves every external service as it was: no tweet is inserted, no call
  is issued (so no follower count is read), and nothing is put on the queue.
\<close>

theorem validation_before_mutation:
  assumes "body_userId req = None \<or> body_text req = None"
  shows "post_tweet req w = (error_response 400 ''userId and text are required'', w) \<and>
         tweets (snd (post_tweet req w)) = tweets w \<and>
         queue (snd (post_tweet req w)) = queue w \<and>
         calls (snd (post_tweet req w)) = calls w"
  using assms post_tweet_rejected [of req w] by auto

lemma post_tweet_fanout:
  assumes req: "body_userId req = Some u" "u \<noteq> 0" "body_text req = Some txt" "txt \<noteq> []"
    and ok: "calls_succeed 5 w" and ch: "channel w \<or> rabbitmq_url w"
    and narrow: "count_followers w u < CELEBRITY_THRESHOLD"
  defines "t \<equiv> \<lparr>id' = tweets_id_seq w + 1, sender_id = u, text' = txt,
                  timestamp = current_timestamp w\<rparr>"
  shows "fst (post_tweet req w) =
           \<lparr>status = 200, json = Tweet_json t False (count_followers w u)\<rparr> \<and>
         tweets (snd (post_tweet req w)) = tweets w @ [t] \<and>
         queue (snd (post_tweet req w)) =
           queue w @ [Payload \<lparr>tweetId = id' t, followers = select_followers w u\<rparr>] \<and>
         log (snd (post_tweet req w)) =
           log w @ [Persisted t, Published \<lparr>tweetId = id' t, followers = select_followers w u\<rparr>]"
proof -
  have f: "\<not> fails w (calls w)" "\<not> fails w (Suc (calls w))" "\<not> fails w (Suc (Suc (calls w)))"
    "\<not> fails w (Suc (Suc (Suc (calls w))))" "\<not> fails w (Suc (Suc (Suc (Suc (calls w)))))"
    using calls_succeedD [OF ok, of 0] calls_succeedD [OF ok, of "Suc 0"]
      calls_succeedD [OF ok, of "Suc (Suc 0)"] calls_succeedD [OF ok, of "Suc (Suc (Suc 0))"]
      calls_succeedD [OF ok, of "Suc (Suc (Suc (Suc 0)))"]
    by simp_all
  show ?thesis
    using req f ch narrow
    by (auto simp: post_tweet_def post_tweet_try_def bind_io_def store_defs external_def
        connectRabbitMQ_def sendToQueue_def Let_def count_followers_def select_followers_def t_def)
qed

lemma post_tweet_celebrity:
  assumes req: "body_userId req = Some u" "u \<noteq> 0" "body_text req = Some txt" "txt \<noteq> []"
    and ok: "calls_succeed 2 w"
    and broad: "CELEBRITY_THRESHOLD \<le> count_followers w u"
  defines "t \<equiv> \<lparr>id' = tweets_id_seq w + 1, sender_id = u, text' = txt,
                  timestamp = current_timestamp w\<rparr>"
  shows "fst (post_tweet req w) =
           \<lparr>status = 200, json = Tweet_json t True (count_followers w u)\<rparr> \<and>
         tweets (snd (post_tweet req w)) = tweets w @ [t] \<and>
         queue (snd (post_tweet req w)) = queue w \<and>
         log (snd (post_tweet req w)) = log w @ [Persisted t]"
proof -
  have f: "\<not> fails w (calls w)" "\<not> fails w (Suc (calls w))"
    using calls_succeedD [OF ok, of 0] calls_succeedD [OF ok, of "Suc 0"]
    by simp_all
  show ?thesis
    using req f broad
    by (auto simp: post_tweet_def post_tweet_try_def bind_io_def store_defs external_def
        Let_def count_followers_def t_def)
qed

lemma post_tweet_log:
  "log (snd (post_tweet req w)) = log w \<or>
   (\<exists>t. log (snd (post_tweet req w)) = log w @ [Persisted t] \<and>
        t \<in> set (tweets (snd (post_tweet req w)))) \<or>
   (\<exists>t fs. log (snd (post_tweet req w)) =
              log w @ [Persisted t, Published \<lparr>tweetId = id' t, followers = fs\<rparr>] \<and>
           t \<in> set (tweets (snd (post_tweet req w))))"
  by (auto simp: post_tweet_def post_tweet_try_def bind_io_def store_defs external_def
      connectRabbitMQ_def sendToQueue_def Let_def split: option.splits)

lemma post_tweet_broadcast_queue:
  "body_userId req = Some u \<Longrightarrow> CELEBRITY_THRESHOLD \<le> count_followers w u \<Longrightarrow>
   queue (snd (post_tweet req w)) = queue w"
  by (auto simp: post_tweet_def post_tweet_try_def bind_io_def store_defs external_def
      Let_def count_followers_def split: option.splits)

text \<open>
  Claim C1. For a request that passes validation: when the producer has fewer than 5
  followers and the calls to the store and the channel succeed, exactly one job is put
  on the queue, holding the id of the tweet just inserted and the ids of all the
  followers the store holds for the producer; when the producer has 5 followers or
  more, nothing is put on the queue, whether or not a call fails.
\<close>

theorem fanout_decision:
  assumes "body_userId req = Some u" and "u \<noteq> 0" and "body_text req = Some txt" and "txt \<noteq> []"
  shows "(count_followers w u < CELEBRITY_THRESHOLD \<and> calls_succeed 5 w \<and>
          (channel w \<or> rabbitmq_url w) \<longrightarrow>
           (\<exists>t. fst (post_tweet req w) =
                  \<lparr>status = 200, json = Tweet_json t False (count_followers w u)\<rparr> \<and>
                tweets (snd (post_tweet req w)) = tweets w @ [t] \<and>
                queue (snd (post_tweet req w)) =
                  queue w @ [Payload \<lparr>tweetId = id' t, followers = select_followers w u\<rparr>] \<and>
                events_of w (snd (post_tweet req w)) =
                  [Persisted t, Published \<lparr>tweetId = id' t, followers = select_followers w u\<rparr>])) \<and>
         (CELEBRITY_THRESHOLD \<le> count_followers w u \<longrightarrow>
            queue (snd (post_tweet req w)) = queue w) \<and>
         (CELEBRITY_THRESHOLD \<le> count_followers w u \<and> calls_succeed 2 w \<longrightarrow>
           (\<exists>t. fst (post_tweet req w) =
                  \<lparr>status = 200, json = Tweet_json t True (count_followers w u)\<rparr> \<and>
                tweets (snd (post_tweet req w)) = tweets w @ [t] \<and>
                events_of w (snd (post_tweet req w)) = [Persisted t]))"
proof (intro conjI impI)
  assume a: "count_followers w u < CELEBRITY_THRESHOLD \<and> calls_succeed 5 w \<and>
          (channel w \<or> rabbitmq_url w)"
  then have "calls_succeed 5 w" "channel w \<or> rabbitmq_url w"
    "count_followers w u < CELEBRITY_THRESHOLD" by simp_all
  from post_tweet_fanout [OF assms this]
  show "\<exists>t. fst (post_tweet req w) =
                  \<lparr>status = 200, json = Tweet_json t False (count_followers w u)\<rparr> \<and>
                tweets (snd (post_tweet req w)) = tweets w @ [t] \<and>
                queue (snd (post_tweet req w)) =
                  queue w @ [Payload \<lparr>tweetId = id' t, followers = select_followers w u\<rparr>] \<and>
                events_of w (snd (post_tweet req w)) =
                  [Persisted t, Published \<lparr>tweetId = id' t, followers = select_followers w u\<rparr>]"
    by (auto simp: events_of_def)
next
  assume "CELEBRITY_THRESHOLD \<le> count_followers w u"
  with assms(1) show "queue (snd (post_tweet req w)) = queue w"
    by (rule post_tweet_broadcast_queue)
next
  assume b: "CELEBRITY_THRESHOLD \<le> count_followers w u \<and> calls_succeed 2 w"
  then have "calls_succeed 2 w" "CELEBRITY_THRESHOLD \<le> count_followers w u" by simp_all
  from post_tweet_celebrity [OF assms this]
  show "\<exists>t. fst (post_tweet req w) =
                  \<lparr>status = 200, json = Tweet_json t True (count_followers w u)\<rparr> \<and>
                tweets (snd (post_tweet req w)) = tweets w @ [t] \<and>
                events_of w (snd (post_tweet req w)) = [Persisted t]"
    by (auto simp: events_of_def)
qed

text \<open>
  Claim C7. In any run of the write path, with or without failures, a job that is
  published comes right after the insertion of the tweet it names: the events of the
  request are then the insertion followed by the publication, and the tweet is in the
  table.
\<close>

theorem write_then_publish:
  assumes "events_of w (snd (post_tweet req w)) = before @ Published j # after"
  shows "\<exists>t. before = [Persisted t] \<and> after = [] \<and> id' t = tweetId j \<and>
             t \<in> set (tweets (snd (post_tweet req w))) \<and>
             log (snd (post_tweet req w)) = log w @ [Persisted t, Published j]"
proof -
  let ?W = "snd (post_tweet req w)"
  consider "log ?W = log w"
    | t where "log ?W = log w @ [Persisted t]"
    | t fs where "log ?W = log w @ [Persisted t, Published \<lparr>tweetId = id' t, followers = fs\<rparr>]"
        "t \<in> set (tweets ?W)"
    using post_tweet_log [of req w] by blast
  then show ?thesis
  proof cases
    case 1
    with assms show ?thesis by (simp add: events_of_def)
  next
    case 2
    with assms show ?thesis by (auto simp: events_of_def Cons_eq_append_conv)
  next
    case 3
    have "before @ Published j # after = [Persisted t, Published \<lparr>tweetId = id' t, followers = fs\<rparr>]"
      using assms 3(1) by (simp add: events_of_def)
    then have "before = [Persisted t] \<and> after = [] \<and> j = \<lparr>tweetId = id' t, followers = fs\<rparr>"
      by (auto simp: append_eq_Cons_conv Cons_eq_append_conv)
    with 3 show ?thesis by auto
  qed
qed

theorem validation_before_mutation_witness:
  "(body_userId request_no_text = None \<or> body_text request_no_text = None) \<and>
   post_tweet request_no_text base_world =
     (error_response 400 ''userId and text are required'', base_world)"
  using validation_before_mutation [of request_no_text base_world]
  by (simp add: request_no_text_def)

theorem fanout_decision_witness:
  "calls_succeed 5 base_world \<and> (channel base_world \<or> rabbitmq_url base_world) \<and>
   count_followers base_world 1 < CELEBRITY_THRESHOLD \<and>
   queue (snd (post_tweet request_narrow base_world)) = [Payload job_narrow] \<and>
   tweets (snd (post_tweet request_narrow base_world)) = [tweet_101] \<and>
   CELEBRITY_THRESHOLD \<le> count_followers base_world 2 \<and>
   queue (snd (post_tweet request_broadcast base_world)) = [] \<and>
   tweets (snd (post_tweet request_broadcast base_world)) = [tweet_news]"
proof -
  have ok: "calls_succeed 5 base_world"
    by (simp add: calls_succeed_def base_world_def)
  have ch: "channel base_world \<or> rabbitmq_url base_world"
    by (simp add: base_world_def)
  have n: "count_followers base_world 1 < CELEBRITY_THRESHOLD"
    and b: "CELEBRITY_THRESHOLD \<le> count_followers base_world 2"
    by (simp_all add: count_followers_def base_world_def CELEBRITY_THRESHOLD_def)
  have narrow: "queue (snd (post_tweet request_narrow base_world)) = [Payload job_narrow]"
    "tweets (snd (post_tweet request_narrow base_world)) = [tweet_101]"
    by (simp_all add: handler_defs request_narrow_def base_world_def tweet_101_def job_narrow_def)
  have broad: "tweets (snd (post_tweet request_broadcast base_world)) = [tweet_news]"
    by (simp_all add: handler_defs request_broadcast_def base_world_def tweet_news_def)
  have "body_userId request_narrow = Some 1" "body_text request_narrow = Some ''hello''"
    "body_userId request_broadcast = Some 2" "body_text request_broadcast = Some ''news''"
    by (simp_all add: request_narrow_def request_broadcast_def)
  then show ?thesis
    using ok ch n b narrow broad
      fanout_decision [of request_narrow 1 "''hello''" base_world]
      fanout_decision [of request_broadcast 2 "''news''" base_world]
    by (simp add: base_world_def)
qed

theorem write_then_publish_witness:
  "events_of base_world (snd (post_tweet request_narrow base_world)) =
     [Persisted tweet_101] @ Published job_narrow # [] \<and>
   id' tweet_101 = tweetId job_narrow \<and>
   tweet_101 \<in> set (tweets (snd (post_tweet request_narrow base_world)))"
proof -
  have ev: "events_of base_world (snd (post_tweet request_narrow base_world)) =
     [Persisted tweet_101] @ Published job_narrow # []"
    by (simp add: handler_defs request_narrow_def base_world_def tweet_101_def job_narrow_def)
  from write_then_publish [OF ev] show ?thesis
    using ev by auto
qed

section \<open>The read path: unknown consumer, cache failure\<close>

lemmas read_defs =
  get_timeline_def get_timeline_try_def bind_io_def store_defs external_def Let_def
  fetchTweetIdsFromRedis_def fetchCelebrityTweetsFromDB_def lRange_def select_user_def
  error_response_def page_of_def

lemma get_timeline_not_found:
  assumes "u \<notin> set (users w)" and "\<not> fails w (calls w)"
  shows "get_timeline (Some u) w =
         (error_response 404 ''User not found'', w\<lparr>calls := Suc (calls w)\<rparr>)"
proof -
  have "filter (\<lambda>v. v = u) (users w) = []"
    using assms(1) by (auto simp: filter_empty_conv)
  then show ?thesis using assms(2) by (simp add: read_defs)
qed

lemma get_timeline_store_down:
  assumes "fails w (calls w)"
  shows "get_timeline (Some u) w =
         (error_response 500 ''Internal server error'', w\<lparr>calls := Suc (calls w)\<rparr>)"
  using assms by (simp add: read_defs)

lemma get_timeline_cache_down:
  assumes "u \<in> set (users w)" and "\<not> fails w (calls w)" and "fails w (Suc (calls w))"
  shows "get_timeline (Some u) w =
         (error_response 500 ''Internal server error'', w\<lparr>calls := Suc (Suc (calls w))\<rparr>)"
proof -
  have "filter (\<lambda>v. v = u) (users w) \<noteq> []"
    using assms(1) by (auto simp: filter_empty_conv)
  then show ?thesis using assms(2,3) by (simp add: read_defs)
qed


text \<open>
  Claim C6. A timeline request for a consumer id that the store does not hold returns no
  page; when the look-up of the user succeeds, the answer is 404 and that look-up is
  the only call issued: neither the cache nor the broadcast query is read.
\<close>

theorem unknown_consumer:
  assumes "userId \<notin> set (users w)"
  shows "page_of (fst (get_timeline (Some userId) w)) = None \<and>
         (\<not> fails w (calls w) \<longrightarrow>
            get_timeline (Some userId) w =
              (error_response 404 ''User not found'', w\<lparr>calls := Suc (calls w)\<rparr>))"
proof (cases "fails w (calls w)")
  case True
  then show ?thesis
    by (simp add: get_timeline_store_down) (simp add: page_of_def error_response_def)
next
  case False
  with assms show ?thesis
    by (simp add: get_timeline_not_found) (simp add: page_of_def error_response_def)
qed

text \<open>
  Claim C5, as amended. When the read of the consumer's cache list fails, the request
  fails as a whole: the answer is 500 with no page, after two calls (the look-up of the
  user and the failed cache read), so the broadcast query is not issued.
\<close>

theorem cache_failure_fails_request:
  assumes "userId \<in> set (users w)" and "\<not> fails w (calls w)" and "fails w (Suc (calls w))"
  shows "get_timeline (Some userId) w =
           (error_response 500 ''Internal server error'', w\<lparr>calls := Suc (Suc (calls w))\<rparr>) \<and>
         page_of (fst (get_timeline (Some userId) w)) = None"
  using get_timeline_cache_down [OF assms] by (simp add: page_of_def error_response_def)

text \<open>
  Claim C5 as stated fails: consumer 3 follows producer 2, who has 6 followers and one
  tweet, so the broadcast query alone would give a page of one entry; the cache read
  fails, and the request ends with status 500 and no page.
\<close>

theorem cache_failure_counterexample:
  "fails cache_down_world (Suc (calls cache_down_world)) \<and>
   select_celebrity_tweets cache_down_world 3 CELEBRITY_THRESHOLD = [tweet_202] \<and>
   fst (get_timeline (Some 3) cache_down_world) =
     error_response 500 ''Internal server error'' \<and>
   page_of (fst (get_timeline (Some 3) cache_down_world)) = None"
  by (simp add: read_defs cache_down_world_def base_world_def tweet_202_def
      select_celebrity_tweets_def count_followers_def CELEBRITY_THRESHOLD_def
      order_by_timestamp_desc_def)

theorem cache_failure_fails_request_witness:
  "3 \<in> set (users cache_down_world) \<and> \<not> fails cache_down_world (calls cache_down_world) \<and>
   fails cache_down_world (Suc (calls cache_down_world)) \<and>
   status (fst (get_timeline (Some 3) cache_down_world)) = 500 \<and>
   calls (snd (get_timeline (Some 3) cache_down_world)) = 2"
  using cache_failure_fails_request [of 3 cache_down_world]
  by (simp add: cache_down_world_def base_world_def error_response_def)

theorem unknown_consumer_witness:
  "99 \<notin> set (users base_world) \<and> \<not> fails base_world (calls base_world) \<and>
   get_timeline (Some 99) base_world =
     (error_response 404 ''User not found'', base_world\<lparr>calls := 1\<rparr>) \<and>
   page_of (fst (get_timeline (Some 99) base_world)) = None"
  using unknown_consumer [of 99 base_world]
  by (simp add: base_world_def page_of_def error_response_def)

section \<open>Duplicate delivery\<close>




























end
